theory Spec2Isabelle
  imports Main "HOL-Library.AList" "HOL-Library.Multiset"
begin

section \<open>The object graph\<close>

text \<open>
  The package works on \<^verbatim>\<open>[]*inject.Object\<close>. A pointer to an object is an address of
  type \<open>'n\<close>; the heap maps every address to the object stored there. The heap of a
  running program holds finitely many objects, hence \<open>'n\<close> is a finite type.

  Of an object the code reads three things: whether its \<^verbatim>\<open>Value\<close> satisfies
  \<^verbatim>\<open>Starter\<close> (and then its \<^verbatim>\<open>Start\<close> method), whether it satisfies \<^verbatim>\<open>Stopper\<close> (and
  then its \<^verbatim>\<open>Stop\<close> method), and the map \<^verbatim>\<open>Fields\<close>. The text \<^verbatim>\<open>%s\<close> prints for the
  object is the result of its \<^verbatim>\<open>String\<close> method, which belongs to the inject library
  and is kept as a field.

  A method takes the context and the state of the world, and returns its error
  (\<open>None\<close> is \<^verbatim>\<open>nil\<close>) together with the new state of the world. \<^verbatim>\<open>Fields\<close> is a Go
  map; ranging over it visits its entries in an order the language leaves open. The
  list of entries fixes one such order, the same every time the map is ranged over.
  Every address holds an object: a \<^verbatim>\<open>nil\<close> pointer, on which the code panics, is not
  an address.
\<close>

type_synonym ('c, 'w, 'e) behaviour = "'c \<Rightarrow> 'w \<Rightarrow> 'e option \<times> 'w"

record ('c, 'w, 'e, 'n) Object =
  Starter :: "('c, 'w, 'e) behaviour option"
  Stopper :: "('c, 'w, 'e) behaviour option"
  Fields :: "(string \<times> 'n) list"
  String :: string

type_synonym ('c, 'w, 'e, 'n) heap = "'n \<Rightarrow> ('c, 'w, 'e, 'n) Object"

text \<open>\<^verbatim>\<open>type path []struct { Field string; Object *inject.Object }\<close>\<close>

type_synonym 'n path = "(string \<times> 'n) list"

text \<open>
  The \<^verbatim>\<open>error\<close> values \<^verbatim>\<open>Start\<close> and \<^verbatim>\<open>Stop\<close> return: a \<^verbatim>\<open>cycleError\<close>, which is a
  path, or the error of a node's method.
\<close>

datatype ('n, 'e) error = CycleError "'n path" | NodeError 'e

definition isEligible :: "('c, 'w, 'e, 'n) Object \<Rightarrow> bool" where
  "isEligible i =
     (case Starter i of
        Some _ \<Rightarrow> True
      | None \<Rightarrow> (case Stopper i of Some _ \<Rightarrow> True | None \<Rightarrow> False))"

section \<open>Enumerating the paths back to an object\<close>

text \<open>
  \<^verbatim>\<open>allPaths(from, to, seen)\<close> returns the paths and updates the map \<open>seen\<close> in place;
  the model returns the new \<open>seen\<close> with the paths. \<open>seen\<close> only ever stores \<^verbatim>\<open>true\<close>,
  so it is the set of its keys. \<open>allPaths_range\<close> is the loop over \<^verbatim>\<open>from.Fields\<close>,
  with the entries still to visit and the paths collected so far.
\<close>

function allPaths ::
    "('c, 'w, 'e, 'n::finite) heap \<Rightarrow> 'n \<Rightarrow> 'n \<Rightarrow> 'n set \<Rightarrow> 'n path list \<times> 'n set"
  and allPaths_range ::
    "('c, 'w, 'e, 'n) heap \<Rightarrow> 'n \<Rightarrow> 'n \<Rightarrow> (string \<times> 'n) list \<Rightarrow> 'n path list \<Rightarrow> 'n set
       \<Rightarrow> 'n path list \<times> 'n set"
  where
    "allPaths h from to seen =
       (if from \<noteq> to \<and> from \<in> seen then ([], seen)
        else allPaths_range h from to (Fields (h from)) []
               (if from \<noteq> to then insert from seen else seen))"
  | "allPaths_range h from to [] paths seen = (paths, seen)"
  | "allPaths_range h from to ((field, val) # rest) paths seen =
       (if val = to then allPaths_range h from to rest (paths @ [[(field, from)]]) seen
        else (case allPaths h val to seen of
                (ps, seen') \<Rightarrow>
                  allPaths_range h from to rest
                    (paths @ map (\<lambda>p. (field, from) # p) ps) seen'))"
  by pat_completeness auto

lemma seen_subset_dom:
  "allPaths_allPaths_range_dom (Inl (h, from, to, seen)) \<Longrightarrow>
     seen \<subseteq> snd (allPaths h from to seen)"
  "allPaths_allPaths_range_dom (Inr (h, from, to, fs, paths, seen)) \<Longrightarrow>
     seen \<subseteq> snd (allPaths_range h from to fs paths seen)"
  by (induct h "from" to seen and h "from" to fs paths seen
      rule: allPaths_allPaths_range.pinduct)
    (auto simp: allPaths.psimps allPaths_range.psimps split: prod.splits if_splits, blast)

lemma card_Compl_insert_less:
  "x \<notin> (A :: 'a::finite set) \<Longrightarrow> card (- insert x A) < card (- A)"
  by (rule psubset_card_mono) auto

lemma card_Compl_mono: "A \<subseteq> B \<Longrightarrow> card (- B) \<le> card (- (A :: 'a::finite set))"
  by (rule card_mono) auto

text \<open>
  Every call that goes on marks an object that was not marked, so the number of
  unmarked objects of the finite heap bounds the depth of the recursion.
\<close>

termination allPaths
proof (relation "inv_image (less_than <*lex*> less_than <*lex*> less_than)
     (\<lambda>x. case x of
        Inl (h, from, to, seen) \<Rightarrow>
          (if from \<noteq> to \<and> from \<in> seen then (0, 0, 0)
           else (card (- (if from \<noteq> to then insert from seen else seen)), 1, 0))
      | Inr (h, from, to, fs, paths, seen) \<Rightarrow> (card (- seen), 0, Suc (length fs)))",
    goal_cases)
  case 1
  show ?case by (intro wf_inv_image wf_lex_prod wf_less_than)
next
  case (2 h "from" to seen)
  then show ?case by auto
next
  case (3 h "from" to field val rest paths seen)
  then show ?case by auto
next
  case (4 h "from" to field val rest paths seen)
  then show ?case by (auto simp: card_Compl_insert_less)
next
  case (5 h "from" to field val rest paths seen x y)
  from seen_subset_dom(1)[OF 5(3)] 5(2) have "seen \<subseteq> y"
    by (metis snd_conv)
  from card_Compl_mono[OF this] show ?case
    by auto
qed

declare allPaths.simps [simp del]

section \<open>Levels\<close>

text \<open>
  \<^verbatim>\<open>levelsMap\<close> is a \<^verbatim>\<open>map[int][]*inject.Object\<close>: an association list with one entry
  per key. Reading a missing key gives the \<^verbatim>\<open>nil\<close> slice.
\<close>

type_synonym 'n levelsMap = "(nat \<times> 'n list) list"

definition lookup_level :: "'n levelsMap \<Rightarrow> nat \<Rightarrow> 'n list" where
  "lookup_level levelsMap k = (case map_of levelsMap k of None \<Rightarrow> [] | Some l \<Rightarrow> l)"

definition append_level :: "'n levelsMap \<Rightarrow> nat \<Rightarrow> 'n \<Rightarrow> 'n levelsMap" where
  "append_level levelsMap k ob = AList.update k (lookup_level levelsMap k @ [ob]) levelsMap"

text \<open>The number of eligible objects among the steps of a path.\<close>

definition count_eligible :: "('c, 'w, 'e, 'n) heap \<Rightarrow> 'n path \<Rightarrow> nat" where
  "count_eligible h p = length (filter (\<lambda>s. isEligible (h (snd s))) p)"

text \<open>The loop over \<open>paths\<close>: the first path that is a cycle error, if any.\<close>

fun check_paths :: "('c, 'w, 'e, 'n) heap \<Rightarrow> 'n path list \<Rightarrow> 'n path option" where
  "check_paths h [] = None"
| "check_paths h (p # paths) =
     (if length p = 1 then Some p
      else if count_eligible h p > 1 then Some p
      else check_paths h paths)"

text \<open>The loop over \<open>deps\<close> counting the eligible objects; the order of a count is immaterial.\<close>

definition startStopDeps :: "('c, 'w, 'e, 'n) heap \<Rightarrow> 'n set \<Rightarrow> nat" where
  "startStopDeps h deps = card {dep \<in> deps. isEligible (h dep)}"

fun levels_range ::
  "('c, 'w, 'e, 'n::finite) heap \<Rightarrow> 'n list \<Rightarrow> 'n levelsMap \<Rightarrow> 'n path + 'n levelsMap" where
  "levels_range h [] levelsMap = Inr levelsMap"
| "levels_range h (ob # objects) levelsMap =
     (if \<not> isEligible (h ob) then levels_range h objects levelsMap
      else (case allPaths h ob ob {} of
              (paths, deps) \<Rightarrow>
                (case check_paths h paths of
                   Some p \<Rightarrow> Inl p
                 | None \<Rightarrow>
                     levels_range h objects
                       (append_level levelsMap (startStopDeps h deps) ob))))"

text \<open>
  The keys are collected, sorted in descending order (they are distinct, so the
  sorted slice does not depend on the order of collection) and replaced by their
  slices.
\<close>

definition levels :: "('c, 'w, 'e, 'n::finite) heap \<Rightarrow> 'n list \<Rightarrow> 'n path + 'n list list" where
  "levels h objects =
     (case levels_range h objects [] of
        Inl p \<Rightarrow> Inl p
      | Inr levelsMap \<Rightarrow>
          (let levelsMapKeys = rev (sort (map fst levelsMap))
           in Inr (map (lookup_level levelsMap) levelsMapKeys)))"

section \<open>The text of a cycle error\<close>

text \<open>
  \<^verbatim>\<open>cycleError.Error\<close>. The loop appends to the buffer; \<^verbatim>\<open>c[0]\<close> on the empty path is a
  run-time panic, the result \<open>None\<close>.
\<close>

definition field_in :: "('c, 'w, 'e, 'n) heap \<Rightarrow> string \<times> 'n \<Rightarrow> string" where
  "field_in h s = ''field '' @ fst s @ '' in '' @ String (h (snd s))"

fun Error_range :: "('c, 'w, 'e, 'n) heap \<Rightarrow> nat \<Rightarrow> 'n path \<Rightarrow> string \<Rightarrow> string" where
  "Error_range h num [] buf = buf"
| "Error_range h num (s # c) buf =
     Error_range h num c
       ((buf @ (if num \<noteq> 1 then [CHR 0x0A] else '' '')) @ field_in h s)"

definition Error :: "('c, 'w, 'e, 'n) heap \<Rightarrow> 'n path \<Rightarrow> string option" where
  "Error h c =
     (let buf = ''circular reference detected from'';
          num = length c;
          buf = Error_range h num c buf
      in if num = 1 then Some (buf @ '' to itself'')
         else (case c of
                 [] \<Rightarrow> None
               | c0 # _ \<Rightarrow> Some (buf @ [CHR 0x0A] @ field_in h c0)))"

section \<open>Start and Stop\<close>

text \<open>
  The log sink is an interface with two methods, each taking the format and the
  arguments; it acts on a state of its own. \<^verbatim>\<open>log\<close> is \<open>None\<close> for \<^verbatim>\<open>nil\<close>.

  The state threaded through \<^verbatim>\<open>Start\<close> and \<^verbatim>\<open>Stop\<close> is the world the methods of the
  nodes act on, the state of the log sink, and the record of the methods invoked so
  far, in order.
\<close>

datatype ('n, 'e) arg = ObjectArg 'n | ErrorArg 'e

record ('l, 'n, 'e) Logger =
  Debugf :: "string \<Rightarrow> ('n, 'e) arg list \<Rightarrow> 'l \<Rightarrow> 'l"
  Errorf :: "string \<Rightarrow> ('n, 'e) arg list \<Rightarrow> 'l \<Rightarrow> 'l"

datatype 'n call = StartCall 'n | StopCall 'n

record ('w, 'l, 'n) state =
  world :: 'w
  sink :: 'l
  calls :: "'n call list"

definition debug ::
  "('l, 'n, 'e) Logger option \<Rightarrow> string \<Rightarrow> ('n, 'e) arg list \<Rightarrow> ('w, 'l, 'n) state
     \<Rightarrow> ('w, 'l, 'n) state" where
  "debug log f args s =
     (case log of None \<Rightarrow> s | Some lg \<Rightarrow> s\<lparr>sink := Debugf lg f args (sink s)\<rparr>)"

definition errorf ::
  "('l, 'n, 'e) Logger option \<Rightarrow> string \<Rightarrow> ('n, 'e) arg list \<Rightarrow> ('w, 'l, 'n) state
     \<Rightarrow> ('w, 'l, 'n) state" where
  "errorf log f args s =
     (case log of None \<Rightarrow> s | Some lg \<Rightarrow> s\<lparr>sink := Errorf lg f args (sink s)\<rparr>)"

text \<open>Invoking a method: the world changes and the call is recorded.\<close>

definition invoke ::
  "('c, 'w, 'e) behaviour \<Rightarrow> 'c \<Rightarrow> 'n call \<Rightarrow> ('w, 'l, 'n) state \<Rightarrow> 'e option \<times> ('w, 'l, 'n) state" where
  "invoke m ctx c s =
     (case m ctx (world s) of
        (err, w) \<Rightarrow> (err, s\<lparr>world := w, calls := calls s @ [c]\<rparr>))"

text \<open>The inner loop of \<^verbatim>\<open>Start\<close>, over the objects of one level.\<close>

fun Start_level ::
  "'c \<Rightarrow> ('c, 'w, 'e, 'n) heap \<Rightarrow> ('l, 'n, 'e) Logger option \<Rightarrow> 'n list \<Rightarrow> ('w, 'l, 'n) state
     \<Rightarrow> ('n, 'e) error option \<times> ('w, 'l, 'n) state" where
  "Start_level ctx h log [] s = (None, s)"
| "Start_level ctx h log (ob # level) s =
     (case Starter (h ob) of
        None \<Rightarrow> Start_level ctx h log level s
      | Some starterO \<Rightarrow>
          (case invoke starterO ctx (StartCall ob) (debug log ''starting %s'' [ObjectArg ob] s) of
             (Some err, s') \<Rightarrow> (Some (NodeError err), s')
           | (None, s') \<Rightarrow> Start_level ctx h log level s'))"

text \<open>The outer loop, \<^verbatim>\<open>for i := len(levels) - 1; i >= 0; i--\<close>.\<close>

function Start_from ::
  "'c \<Rightarrow> ('c, 'w, 'e, 'n) heap \<Rightarrow> ('l, 'n, 'e) Logger option \<Rightarrow> 'n list list \<Rightarrow> int
     \<Rightarrow> ('w, 'l, 'n) state \<Rightarrow> ('n, 'e) error option \<times> ('w, 'l, 'n) state" where
  "Start_from ctx h log lvs i s =
     (if i \<ge> 0 then
        (case Start_level ctx h log (lvs ! nat i) s of
           (Some err, s') \<Rightarrow> (Some err, s')
         | (None, s') \<Rightarrow> Start_from ctx h log lvs (i - 1) s')
      else (None, s))"
  by pat_completeness auto

termination
  by (relation "measure (\<lambda>(ctx, h, log, lvs, i, s). nat (i + 1))") auto

declare Start_from.simps [simp del]

definition Start ::
  "'c \<Rightarrow> ('c, 'w, 'e, 'n::finite) heap \<Rightarrow> 'n list \<Rightarrow> ('l, 'n, 'e) Logger option
     \<Rightarrow> ('w, 'l, 'n) state \<Rightarrow> ('n, 'e) error option \<times> ('w, 'l, 'n) state" where
  "Start ctx h objects log s =
     (case levels h objects of
        Inl p \<Rightarrow> (Some (CycleError p), s)
      | Inr lv \<Rightarrow> Start_from ctx h log lv (int (length lv) - 1) s)"

text \<open>The loops of \<^verbatim>\<open>Stop\<close>: an error of a node is logged and the loop goes on.\<close>

fun Stop_level ::
  "'c \<Rightarrow> ('c, 'w, 'e, 'n) heap \<Rightarrow> ('l, 'n, 'e) Logger option \<Rightarrow> 'n list \<Rightarrow> ('w, 'l, 'n) state
     \<Rightarrow> ('w, 'l, 'n) state" where
  "Stop_level ctx h log [] s = s"
| "Stop_level ctx h log (ob # level) s =
     (case Stopper (h ob) of
        None \<Rightarrow> Stop_level ctx h log level s
      | Some stopperO \<Rightarrow>
          (case invoke stopperO ctx (StopCall ob) (debug log ''stopping %s'' [ObjectArg ob] s) of
             (Some err, s') \<Rightarrow>
               Stop_level ctx h log level
                 (errorf log ''error stopping %s: %s'' [ObjectArg ob, ErrorArg err] s')
           | (None, s') \<Rightarrow> Stop_level ctx h log level s'))"

fun Stop_levels ::
  "'c \<Rightarrow> ('c, 'w, 'e, 'n) heap \<Rightarrow> ('l, 'n, 'e) Logger option \<Rightarrow> 'n list list
     \<Rightarrow> ('w, 'l, 'n) state \<Rightarrow> ('w, 'l, 'n) state" where
  "Stop_levels ctx h log [] s = s"
| "Stop_levels ctx h log (level # lvs) s =
     Stop_levels ctx h log lvs (Stop_level ctx h log level s)"

definition Stop ::
  "'c \<Rightarrow> ('c, 'w, 'e, 'n::finite) heap \<Rightarrow> 'n list \<Rightarrow> ('l, 'n, 'e) Logger option
     \<Rightarrow> ('w, 'l, 'n) state \<Rightarrow> ('n, 'e) error option \<times> ('w, 'l, 'n) state" where
  "Stop ctx h objects log s =
     (case levels h objects of
        Inl p \<Rightarrow> (Some (CycleError p), s)
      | Inr lv \<Rightarrow> (None, Stop_levels ctx h log lv s))"

section \<open>Notions the properties are stated with\<close>

text \<open>Lines joined by line feeds, with no line feed after the last.\<close>

fun join_lines :: "string list \<Rightarrow> string" where
  "join_lines [] = []"
| "join_lines [l] = l"
| "join_lines (l # ls) = l @ [CHR 0x0A] @ join_lines ls"


text \<open>The edges of the graph: \<open>a\<close> has a field that holds \<open>b\<close>.\<close>

definition edges :: "('c, 'w, 'e, 'n) heap \<Rightarrow> ('n \<times> 'n) set" where
  "edges h = {(a, b). b \<in> snd ` set (Fields (h a))}"

text \<open>
  A path leads to \<open>to\<close>: the field named by every step of the object of that step holds
  the object of the next step, and the field of the last step holds \<open>to\<close>.
\<close>

definition next_node :: "'n path \<Rightarrow> 'n \<Rightarrow> 'n" where
  "next_node q to = (case q of [] \<Rightarrow> to | s # _ \<Rightarrow> snd s)"

fun is_path :: "('c, 'w, 'e, 'n) heap \<Rightarrow> 'n path \<Rightarrow> 'n \<Rightarrow> bool" where
  "is_path h [] to = False"
| "is_path h (s # q) to =
     ((fst s, next_node q to) \<in> set (Fields (h (snd s))) \<and> (q = [] \<or> is_path h q to))"

text \<open>
  The reachability set of an object: the objects other than itself that a non-empty
  chain of fields leads to.
\<close>

definition reachability :: "('c, 'w, 'e, 'n) heap \<Rightarrow> 'n \<Rightarrow> 'n set" where
  "reachability h ob = {d. (ob, d) \<in> (edges h)\<^sup>+} - {ob}"

text \<open>
  The count \<^verbatim>\<open>levels\<close> files an object under: \<^verbatim>\<open>startStopDeps\<close> of the set \<^verbatim>\<open>allPaths\<close>
  has marked for it.
\<close>

definition level_count :: "('c, 'w, 'e, 'n::finite) heap \<Rightarrow> 'n \<Rightarrow> nat" where
  "level_count h ob = startStopDeps h (snd (allPaths h ob ob {}))"

text \<open>
  The cycle error \<^verbatim>\<open>levels\<close> finds for an object, if any.
\<close>

definition fatal :: "('c, 'w, 'e, 'n::finite) heap \<Rightarrow> 'n \<Rightarrow> 'n path option" where
  "fatal h ob = check_paths h (fst (allPaths h ob ob {}))"

text \<open>
  The counts of the eligible objects of the input, in descending order.
\<close>

definition level_keys :: "('c, 'w, 'e, 'n::finite) heap \<Rightarrow> 'n list \<Rightarrow> nat list" where
  "level_keys h objects =
     rev (sorted_list_of_set (level_count h ` {ob \<in> set objects. isEligible (h ob)}))"

text \<open>
  The eligible objects of the input with a given count, in the order of the input.
\<close>

definition bucket :: "('c, 'w, 'e, 'n::finite) heap \<Rightarrow> 'n list \<Rightarrow> nat \<Rightarrow> 'n list" where
  "bucket h objects k = filter (\<lambda>ob. isEligible (h ob) \<and> level_count h ob = k) objects"

text \<open>
  In a list, the first occurrence of \<open>a\<close> is followed, later, by an occurrence of \<open>b\<close>.
\<close>

fun before :: "'a \<Rightarrow> 'a \<Rightarrow> 'a list \<Rightarrow> bool" where
  "before a b [] = False"
| "before a b (x # xs) = (if x = a then b \<in> set xs else before a b xs)"

text \<open>
  A log sink that records what it is handed, as the logger of the tests does: its state
  is the list of the events so far.
\<close>

datatype ('n, 'e) log_event =
  DebugEvent string "('n, 'e) arg list" | ErrorEvent string "('n, 'e) arg list"

definition recorder :: "(('n, 'e) log_event list, 'n, 'e) Logger" where
  "recorder = \<lparr>Debugf = (\<lambda>f args l. l @ [DebugEvent f args]),
               Errorf = (\<lambda>f args l. l @ [ErrorEvent f args])\<rparr>"

text \<open>
  The stoppable objects of a list with the error their \<^verbatim>\<open>Stop\<close> returns when they are
  stopped one after the other from the world \<open>w\<close>, and the events a stop gives rise to.
\<close>

fun stop_outcomes ::
  "'c \<Rightarrow> ('c, 'w, 'e, 'n) heap \<Rightarrow> 'n list \<Rightarrow> 'w \<Rightarrow> ('n \<times> 'e option) list" where
  "stop_outcomes ctx h [] w = []"
| "stop_outcomes ctx h (ob # obs) w =
     (case Stopper (h ob) of
        None \<Rightarrow> stop_outcomes ctx h obs w
      | Some m \<Rightarrow> (ob, fst (m ctx w)) # stop_outcomes ctx h obs (snd (m ctx w)))"

definition stop_events :: "'n \<times> 'e option \<Rightarrow> ('n, 'e) log_event list" where
  "stop_events r =
     DebugEvent ''stopping %s'' [ObjectArg (fst r)]
     # (case snd r of
          None \<Rightarrow> []
        | Some err \<Rightarrow> [ErrorEvent ''error stopping %s: %s'' [ObjectArg (fst r), ErrorArg err]])"




section \<open>Example graphs\<close>

text \<open>
  Heaps of four objects. The context is trivial, the world counts the invocations, and
  the error of a behaviour is its message.
\<close>

datatype node = A | B | C | D

instantiation node :: finite
begin

instance
proof
  have u: "(UNIV :: node set) = {A, B, C, D}"
    by (auto intro: node.exhaust)
  show "finite (UNIV :: node set)"
    by (simp add: u)
qed

end

definition ok :: "(unit, nat, string) behaviour" where
  "ok = (\<lambda>ctx w. (None, Suc w))"

definition failing :: "string \<Rightarrow> (unit, nat, string) behaviour" where
  "failing msg = (\<lambda>ctx w. (Some msg, Suc w))"

definition plain :: "(string \<times> node) list \<Rightarrow> (unit, nat, string, node) Object" where
  "plain fs = \<lparr>Starter = None, Stopper = None, Fields = fs, String = ''plain''\<rparr>"

definition service :: "(string \<times> node) list \<Rightarrow> (unit, nat, string, node) Object" where
  "service fs = \<lparr>Starter = Some ok, Stopper = Some ok, Fields = fs, String = ''service''\<rparr>"

definition broken :: "(string \<times> node) list \<Rightarrow> (unit, nat, string, node) Object" where
  "broken fs =
     \<lparr>Starter = Some (failing ''no start''), Stopper = Some (failing ''no stop''),
      Fields = fs, String = ''broken''\<rparr>"

definition s0 :: "(nat, (node, string) log_event list, node) state" where
  "s0 = \<lparr>world = 0, sink = [], calls = []\<rparr>"

text \<open>The diamond of the tests: \<open>A\<close> has \<open>B\<close> and \<open>D\<close>, which both have \<open>C\<close>; \<open>D\<close> is not eligible.\<close>

definition diamond :: "(unit, nat, string, node) heap" where
  "diamond n =
     (case n of
        A \<Rightarrow> service [(''B'', B), (''D'', D)]
      | B \<Rightarrow> service [(''C'', C)]
      | C \<Rightarrow> service []
      | D \<Rightarrow> plain [(''C'', C)])"

text \<open>A chain \<open>A\<close>, \<open>B\<close>, \<open>C\<close> in which the behaviours of \<open>B\<close> fail.\<close>

definition chain :: "(unit, nat, string, node) heap" where
  "chain n =
     (case n of
        A \<Rightarrow> service [(''B'', B)]
      | B \<Rightarrow> broken [(''C'', C)]
      | C \<Rightarrow> service []
      | D \<Rightarrow> plain [])"



text \<open>The triangle of the tests with one eligible object, \<open>A\<close>.\<close>

definition triangle :: "(unit, nat, string, node) heap" where
  "triangle n =
     (case n of
        A \<Rightarrow> service [(''B'', B)]
      | B \<Rightarrow> plain [(''C'', C)]
      | C \<Rightarrow> plain [(''A'', A)]
      | D \<Rightarrow> plain [])"


section \<open>What allPaths marks and returns\<close>

lemma seen_subset:
  "seen \<subseteq> snd (allPaths h from to seen)"
  "seen \<subseteq> snd (allPaths_range h from to fs paths seen)"
  by (induct h "from" to seen and h "from" to fs paths seen rule: allPaths_allPaths_range.induct)
    (auto simp: allPaths.simps split: prod.splits if_splits, blast)

lemma to_not_seen:
  "to \<notin> seen \<Longrightarrow> to \<notin> snd (allPaths h from to seen)"
  "to \<notin> seen \<Longrightarrow> to \<notin> snd (allPaths_range h from to fs paths seen)"
  by (induct h "from" to seen and h "from" to fs paths seen rule: allPaths_allPaths_range.induct)
    (auto simp: allPaths.simps split: prod.splits if_splits)

lemma seen_reachable:
  "x \<in> snd (allPaths h from to seen) \<Longrightarrow> x \<notin> seen \<Longrightarrow> (from, x) \<in> (edges h)\<^sup>*"
  "x \<in> snd (allPaths_range h from to fs paths seen) \<Longrightarrow> x \<notin> seen \<Longrightarrow>
     \<exists>v \<in> snd ` set fs. (v, x) \<in> (edges h)\<^sup>*"
proof (induct h "from" to seen and h "from" to fs paths seen arbitrary: x and x
    rule: allPaths_allPaths_range.induct)
  case (1 h "from" to seen)
  show ?case
  proof (cases "x = from")
    case True
    then show ?thesis by simp
  next
    case False
    with 1 have "\<exists>v \<in> snd ` set (Fields (h from)). (v, x) \<in> (edges h)\<^sup>*"
      by (auto simp: allPaths.simps[of h "from" to seen] split: if_splits)
    then obtain v where "v \<in> snd ` set (Fields (h from))" "(v, x) \<in> (edges h)\<^sup>*"
      by blast
    moreover from this have "(from, v) \<in> edges h" by (simp add: edges_def)
    ultimately show ?thesis by (meson converse_rtrancl_into_rtrancl)
  qed
next
  case (2 h "from" to paths seen)
  then show ?case by simp
next
  case (3 h "from" to field val rest paths seen)
  show ?case
  proof (cases "val = to")
    case True
    with 3 show ?thesis by auto
  next
    case False
    obtain ps seen' where ap: "allPaths h val to seen = (ps, seen')" by (cases "allPaths h val to seen")
    show ?thesis
    proof (cases "x \<in> seen'")
      case True
      with 3(2)[OF False, of x] ap 3(5) have "(val, x) \<in> (edges h)\<^sup>*" by simp
      then show ?thesis by force
    next
      case nin: False
      from 3(4) False ap have "x \<in> snd (allPaths_range h from to rest (paths @ map ((#) (field, from)) ps) seen')"
        by simp
      from 3(3)[OF False ap[symmetric] this nin] show ?thesis by auto
    qed
  qed
qed


lemma seen_closed:
  "(from \<noteq> to \<longrightarrow> from \<in> snd (allPaths h from to seen)) \<and>
   (\<forall>x y. x \<in> snd (allPaths h from to seen) \<longrightarrow> x \<notin> seen \<longrightarrow> (x, y) \<in> edges h \<longrightarrow>
      y = to \<or> y \<in> snd (allPaths h from to seen))"
  "(\<forall>v \<in> snd ` set fs. v = to \<or> v \<in> snd (allPaths_range h from to fs paths seen)) \<and>
   (\<forall>x y. x \<in> snd (allPaths_range h from to fs paths seen) \<longrightarrow> x \<notin> seen \<longrightarrow> (x, y) \<in> edges h \<longrightarrow>
      y = to \<or> y \<in> snd (allPaths_range h from to fs paths seen))"
proof (induct h "from" to seen and h "from" to fs paths seen
    rule: allPaths_allPaths_range.induct)
  case (1 h "from" to seen)
  show ?case
  proof (cases "from \<noteq> to \<and> from \<in> seen")
    case True
    then show ?thesis by (simp add: allPaths.simps)
  next
    case False
    define seen1 where "seen1 = (if from \<noteq> to then insert from seen else seen)"
    define seen' where "seen' = snd (allPaths_range h from to (Fields (h from)) [] seen1)"
    have res: "snd (allPaths h from to seen) = seen'"
      using False by (auto simp add: allPaths.simps[of h "from" to seen] seen'_def seen1_def)
    have sub: "seen1 \<subseteq> seen'"
      unfolding seen'_def by (rule seen_subset)
    from 1[OF False] have
      ih1: "\<forall>v \<in> snd ` set (Fields (h from)). v = to \<or> v \<in> seen'" and
      ih2: "\<forall>x y. x \<in> seen' \<longrightarrow> x \<notin> seen1 \<longrightarrow> (x, y) \<in> edges h \<longrightarrow> y = to \<or> y \<in> seen'"
      unfolding seen'_def seen1_def by blast+
    have "from \<noteq> to \<longrightarrow> from \<in> seen'"
      using sub by (auto simp: seen1_def)
    moreover have "y = to \<or> y \<in> seen'" if "x \<in> seen'" "x \<notin> seen" "(x, y) \<in> edges h" for x y
    proof (cases "x \<in> seen1")
      case True
      with that have "x = from" by (auto simp: seen1_def split: if_splits)
      with that(3) ih1 show ?thesis by (auto simp: edges_def)
    next
      case False
      with ih2 that show ?thesis by blast
    qed
    ultimately show ?thesis unfolding res by blast
  qed
next
  case (2 h "from" to paths seen)
  then show ?case by simp
next
  case (3 h "from" to field val rest paths seen)
  show ?case
  proof (cases "val = to")
    case True
    with 3(1)[OF True] show ?thesis by simp
  next
    case False
    obtain ps seen1 where ap: "allPaths h val to seen = (ps, seen1)"
      by (cases "allPaths h val to seen")
    define seen' where
      "seen' = snd (allPaths_range h from to rest (paths @ map ((#) (field, from)) ps) seen1)"
    have res: "snd (allPaths_range h from to ((field, val) # rest) paths seen) = seen'"
      using False ap by (simp add: seen'_def)
    have sub: "seen1 \<subseteq> seen'"
      unfolding seen'_def by (rule seen_subset)
    from 3(2)[OF False] ap False have
      a1: "val \<in> seen1" and
      a2: "\<forall>x y. x \<in> seen1 \<longrightarrow> x \<notin> seen \<longrightarrow> (x, y) \<in> edges h \<longrightarrow> y = to \<or> y \<in> seen1"
      by auto
    from 3(3)[OF False ap[symmetric]] have
      b1: "\<forall>v \<in> snd ` set rest. v = to \<or> v \<in> seen'" and
      b2: "\<forall>x y. x \<in> seen' \<longrightarrow> x \<notin> seen1 \<longrightarrow> (x, y) \<in> edges h \<longrightarrow> y = to \<or> y \<in> seen'"
      unfolding seen'_def by blast+
    have "\<forall>v \<in> snd ` set ((field, val) # rest). v = to \<or> v \<in> seen'"
      using a1 b1 sub by auto
    moreover have "y = to \<or> y \<in> seen'" if "x \<in> seen'" "x \<notin> seen" "(x, y) \<in> edges h" for x y
      using that a2 b2 sub by blast
    ultimately show ?thesis unfolding res by blast
  qed
qed

lemma deps_reachable:
  "snd (allPaths h ob ob {}) = {x. (ob, x) \<in> (edges h)\<^sup>+} - {ob}"
proof (rule set_eqI, rule iffI)
  fix x
  assume x: "x \<in> snd (allPaths h ob ob {})"
  from x have "x \<in> snd (allPaths_range h ob ob (Fields (h ob)) [] {})"
    by (simp add: allPaths.simps[of h ob ob])
  from seen_reachable(2)[OF this] obtain v where
    "v \<in> snd ` set (Fields (h ob))" "(v, x) \<in> (edges h)\<^sup>*"
    by auto
  moreover from this have "(ob, v) \<in> edges h" by (simp add: edges_def)
  ultimately have "(ob, x) \<in> (edges h)\<^sup>+" by simp
  moreover have "x \<noteq> ob" using to_not_seen(1)[of ob "{}" h ob] x by auto
  ultimately show "x \<in> {x. (ob, x) \<in> (edges h)\<^sup>+} - {ob}" by simp
next
  fix x
  assume "x \<in> {x. (ob, x) \<in> (edges h)\<^sup>+} - {ob}"
  then have r: "(ob, x) \<in> (edges h)\<^sup>*" and ne: "x \<noteq> ob" by auto
  let ?S = "snd (allPaths h ob ob {})"
  have vs: "\<forall>v \<in> snd ` set (Fields (h ob)). v = ob \<or> v \<in> ?S"
    using seen_closed(2)[of "Fields (h ob)" ob h ob "[]" "{}"]
    by (simp add: allPaths.simps[of h ob ob])
  from r have "x = ob \<or> x \<in> ?S"
  proof (induction rule: rtrancl_induct)
    case base
    then show ?case by simp
  next
    case (step y z)
    from step(3) show ?case
    proof
      assume "y = ob"
      with step(2) vs show ?thesis by (auto simp: edges_def)
    next
      assume "y \<in> ?S"
      with seen_closed(1)[of ob ob h "{}"] step(2) show ?thesis by blast
    qed
  qed
  with ne show "x \<in> ?S" by simp
qed

lemma paths_sound:
  "\<forall>p \<in> set (fst (allPaths h from to seen)).
     (from = to \<or> from \<notin> seen) \<and>
     (\<exists>f q. p = (f, from) # q \<and> is_path h p to \<and> distinct (map snd q) \<and>
        snd ` set q \<subseteq> snd (allPaths h from to seen)
                        - (if from \<noteq> to then insert from seen else seen))"
  "\<forall>p \<in> set (fst (allPaths_range h from to fs paths seen)).
     p \<in> set paths \<or>
     (\<exists>f q. (f, next_node q to) \<in> set fs \<and> p = (f, from) # q \<and> (q = [] \<or> is_path h q to) \<and>
        distinct (map snd q) \<and>
        snd ` set q \<subseteq> snd (allPaths_range h from to fs paths seen) - seen)"
proof (induct h "from" to seen and h "from" to fs paths seen
    rule: allPaths_allPaths_range.induct)
  case (1 h "from" to seen)
  show ?case
  proof (cases "from \<noteq> to \<and> from \<in> seen")
    case True
    then show ?thesis by (simp add: allPaths.simps)
  next
    case False
    define seen1 where "seen1 = (if from \<noteq> to then insert from seen else seen)"
    have res: "allPaths h from to seen = allPaths_range h from to (Fields (h from)) [] seen1"
      using False by (auto simp add: allPaths.simps[of h "from" to seen] seen1_def)
    show ?thesis
      unfolding res seen1_def[symmetric]
      using 1[OF False, folded seen1_def] False by fastforce
  qed
next
  case (2 h "from" to paths seen)
  then show ?case by simp
next
  case (3 h "from" to field val rest paths seen)
  show ?case
  proof (cases "val = to")
    case True
    have res: "allPaths_range h from to ((field, val) # rest) paths seen =
        allPaths_range h from to rest (paths @ [[(field, from)]]) seen"
      using True by simp
    show ?thesis
      unfolding res
    proof
      fix p
      assume "p \<in> set (fst (allPaths_range h from to rest (paths @ [[(field, from)]]) seen))"
      with 3(1)[OF True] have "p \<in> set (paths @ [[(field, from)]]) \<or>
         (\<exists>f q. (f, next_node q to) \<in> set rest \<and> p = (f, from) # q \<and> (q = [] \<or> is_path h q to) \<and>
            distinct (map snd q) \<and>
            snd ` set q \<subseteq> snd (allPaths_range h from to rest (paths @ [[(field, from)]]) seen) - seen)"
        by blast
      then show "p \<in> set paths \<or>
         (\<exists>f q. (f, next_node q to) \<in> set ((field, val) # rest) \<and> p = (f, from) # q \<and> (q = [] \<or> is_path h q to) \<and>
            distinct (map snd q) \<and>
            snd ` set q \<subseteq> snd (allPaths_range h from to rest (paths @ [[(field, from)]]) seen) - seen)"
        using True by (auto simp: next_node_def)
    qed
  next
    case False
    obtain ps seen1 where ap: "allPaths h val to seen = (ps, seen1)"
      by (cases "allPaths h val to seen")
    define paths1 where "paths1 = paths @ map ((#) (field, from)) ps"
    define seen' where "seen' = snd (allPaths_range h from to rest paths1 seen1)"
    have res: "allPaths_range h from to ((field, val) # rest) paths seen =
        allPaths_range h from to rest paths1 seen1"
      using False ap by (simp add: paths1_def)
    have sub1: "seen \<subseteq> seen1" using seen_subset(1)[of seen h val to] ap by simp
    have sub2: "seen1 \<subseteq> seen'" unfolding seen'_def by (rule seen_subset)
    have val1: "val \<in> seen1" using seen_closed(1)[of val to h seen] False ap by simp
    show ?thesis
      unfolding res seen'_def[symmetric]
    proof
      fix p
      assume "p \<in> set (fst (allPaths_range h from to rest paths1 seen1))"
      with 3(3)[OF False ap[symmetric], folded paths1_def, folded seen'_def]
      consider (old) "p \<in> set paths" | (mid) "p \<in> (#) (field, from) ` set ps"
        | (new) f q where "(f, next_node q to) \<in> set rest" "p = (f, from) # q" "q = [] \<or> is_path h q to"
            "distinct (map snd q)" "snd ` set q \<subseteq> seen' - seen1"
        by (auto simp: paths1_def)
      then show "p \<in> set paths \<or>
         (\<exists>f q. (f, next_node q to) \<in> set ((field, val) # rest) \<and> p = (f, from) # q \<and> (q = [] \<or> is_path h q to) \<and>
            distinct (map snd q) \<and> snd ` set q \<subseteq> seen' - seen)"
      proof cases
        case old
        then show ?thesis by simp
      next
        case mid
        then obtain p' where p': "p' \<in> set ps" "p = (field, from) # p'" by auto
        from 3(2)[OF False] ap p'(1) False obtain g q' where
          q': "val \<notin> seen" "p' = (g, val) # q'" "is_path h p' to" "distinct (map snd q')"
            "snd ` set q' \<subseteq> seen1 - insert val seen"
          by fastforce
        have "distinct (map snd p')" using q' by auto
        moreover have "snd ` set p' \<subseteq> seen' - seen" using q' val1 sub2 by auto
        moreover have "next_node p' to = val" using q' by (simp add: next_node_def)
        ultimately show ?thesis using p'(2) q'(3) by auto
      next
        case new
        then show ?thesis using sub1 by auto
      qed
    qed
  qed
qed


lemma paths_top:
  assumes "p \<in> set (fst (allPaths h ob ob {}))"
  shows "\<exists>f q. p = (f, ob) # q \<and> is_path h p ob \<and> distinct (map snd p) \<and> ob \<notin> snd ` set q
           \<and> snd ` set q \<subseteq> snd (allPaths h ob ob {})"
proof -
  from paths_sound(1)[of h ob ob "{}"] assms obtain f q where
    q: "p = (f, ob) # q" "is_path h p ob" "distinct (map snd q)"
       "snd ` set q \<subseteq> snd (allPaths h ob ob {})"
    by fastforce
  have "ob \<notin> snd (allPaths h ob ob {})" by (rule to_not_seen) simp
  with q show ?thesis by auto
qed



section \<open>What levels returns\<close>

lemma level_count_reachability:
  "level_count h ob = card {d \<in> reachability h ob. isEligible (h d)}"
  by (simp add: level_count_def startStopDeps_def deps_reachable reachability_def)



lemma lookup_append_level:
  "lookup_level (append_level m k ob) k' =
     (if k' = k then lookup_level m k @ [ob] else lookup_level m k')"
  by (simp add: lookup_level_def append_level_def update_conv')

lemma keys_append_level: "fst ` set (append_level m k ob) = insert k (fst ` set m)"
  by (simp add: append_level_def dom_update)

lemma distinct_append_level:
  "distinct (map fst m) \<Longrightarrow> distinct (map fst (append_level m k ob))"
  by (simp add: append_level_def distinct_update)

lemma levels_range_Inr:
  "levels_range h objects m = Inr m' \<Longrightarrow>
     (\<forall>ob \<in> set objects. isEligible (h ob) \<longrightarrow> fatal h ob = None) \<and>
     (\<forall>k. lookup_level m' k =
        lookup_level m k @ filter (\<lambda>ob. isEligible (h ob) \<and> level_count h ob = k) objects) \<and>
     fst ` set m' = fst ` set m \<union> level_count h ` {ob \<in> set objects. isEligible (h ob)} \<and>
     (distinct (map fst m) \<longrightarrow> distinct (map fst m'))"
proof (induction objects arbitrary: m)
  case Nil
  then show ?case by simp
next
  case (Cons ob objects)
  show ?case
  proof (cases "isEligible (h ob)")
    case False
    with Cons.prems have "levels_range h objects m = Inr m'" by simp
    from Cons.IH[OF this] False show ?thesis by auto
  next
    case True
    obtain paths deps where ap: "allPaths h ob ob {} = (paths, deps)"
      by (cases "allPaths h ob ob {}")
    from Cons.prems True ap have f: "fatal h ob = None"
      by (auto simp: fatal_def split: option.splits)
    with Cons.prems True ap have
      "levels_range h objects (append_level m (level_count h ob) ob) = Inr m'"
      by (simp add: fatal_def level_count_def)
    from Cons.IH[OF this] True f show ?thesis
      by (auto simp: lookup_append_level keys_append_level distinct_append_level)
  qed
qed


lemma levels_range_total:
  "(\<forall>ob \<in> set objects. isEligible (h ob) \<longrightarrow> fatal h ob = None) \<Longrightarrow>
     \<exists>m'. levels_range h objects m = Inr m'"
  by (induction objects arbitrary: m) (auto simp: fatal_def split: prod.splits option.splits)


lemma levels_Inr:
  assumes "levels h objects = Inr lv"
  shows "lv = map (bucket h objects) (level_keys h objects)"
    and "\<forall>ob \<in> set objects. isEligible (h ob) \<longrightarrow> fatal h ob = None"
proof -
  from assms obtain m where m: "levels_range h objects [] = Inr m"
    and lv: "lv = map (lookup_level m) (rev (sort (map fst m)))"
    by (auto simp: levels_def split: sum.splits)
  from levels_range_Inr[OF m] have
    a: "\<forall>ob \<in> set objects. isEligible (h ob) \<longrightarrow> fatal h ob = None" and
    b: "\<And>k. lookup_level m k = bucket h objects k" and
    c: "fst ` set m = level_count h ` {ob \<in> set objects. isEligible (h ob)}" and
    d: "distinct (map fst m)"
    by (auto simp: lookup_level_def bucket_def)
  have "sorted_list_of_set (set (map fst m)) = sort (map fst m)"
    using d by (simp only: sorted_list_of_set_sort_remdups distinct_remdups_id)
  with c have "rev (sort (map fst m)) = level_keys h objects"
    by (simp add: level_keys_def)
  with lv b show "lv = map (bucket h objects) (level_keys h objects)"
    by (simp add: fun_eq_iff)
  from a show "\<forall>ob \<in> set objects. isEligible (h ob) \<longrightarrow> fatal h ob = None" .
qed

lemma level_keys_props:
  "sorted_wrt (>) (level_keys h objects)"
  "distinct (level_keys h objects)"
  "set (level_keys h objects) = level_count h ` {ob \<in> set objects. isEligible (h ob)}"
proof -
  have "sorted_wrt (<) (sorted_list_of_set (level_count h ` {ob \<in> set objects. isEligible (h ob)}))"
    by (rule strict_sorted_list_of_set)
  then show "sorted_wrt (>) (level_keys h objects)"
    unfolding level_keys_def by (simp add: sorted_wrt_rev)
  show "distinct (level_keys h objects)" by (simp add: level_keys_def)
  show "set (level_keys h objects) = level_count h ` {ob \<in> set objects. isEligible (h ob)}"
    by (simp add: level_keys_def)
qed

lemma mset_buckets:
  "distinct ks \<Longrightarrow>
     mset (concat (map (\<lambda>k. filter (\<lambda>x. P x \<and> c x = k) xs) ks)) =
     mset (filter (\<lambda>x. P x \<and> c x \<in> set ks) xs)"
proof (induction ks)
  case Nil
  then show ?case by simp
next
  case (Cons k ks)
  have "mset (filter (\<lambda>x. P x \<and> c x = k) xs) + mset (filter (\<lambda>x. P x \<and> c x \<in> set ks) xs) =
        mset (filter (\<lambda>x. P x \<and> c x \<in> set (k # ks)) xs)"
    using Cons.prems by (induction xs) auto
  with Cons show ?case by simp
qed

lemma mset_levels:
  assumes "levels h objects = Inr lv"
  shows "mset (concat lv) = mset (filter (\<lambda>ob. isEligible (h ob)) objects)"
proof -
  have "mset (concat lv) =
      mset (filter (\<lambda>x. isEligible (h x) \<and> level_count h x \<in> set (level_keys h objects)) objects)"
    unfolding levels_Inr(1)[OF assms] bucket_def
    by (rule mset_buckets) (rule level_keys_props)
  also have "filter (\<lambda>x. isEligible (h x) \<and> level_count h x \<in> set (level_keys h objects)) objects =
      filter (\<lambda>ob. isEligible (h ob)) objects"
    by (rule filter_cong) (auto simp: level_keys_props)
  finally show ?thesis .
qed

section \<open>The runs of Start and Stop\<close>

lemma world_debug [simp]: "world (debug log f args s) = world s"
  by (simp add: debug_def split: option.splits)

lemma calls_debug [simp]: "calls (debug log f args s) = calls s"
  by (simp add: debug_def split: option.splits)

lemma world_errorf [simp]: "world (errorf log f args s) = world s"
  by (simp add: errorf_def split: option.splits)

lemma calls_errorf [simp]: "calls (errorf log f args s) = calls s"
  by (simp add: errorf_def split: option.splits)

lemma invoke_eq:
  "invoke m ctx c s = (fst (m ctx (world s)), s\<lparr>world := snd (m ctx (world s)), calls := calls s @ [c]\<rparr>)"
  by (simp add: invoke_def split: prod.splits)

lemma Start_level_append:
  "Start_level ctx h log (xs @ ys) s =
     (case Start_level ctx h log xs s of
        (Some e, s') \<Rightarrow> (Some e, s')
      | (None, s') \<Rightarrow> Start_level ctx h log ys s')"
  by (induction xs arbitrary: s) (auto split: option.splits prod.splits)

lemma Start_from_take:
  "n \<le> length lv \<Longrightarrow>
     Start_from ctx h log lv (int n - 1) s = Start_level ctx h log (concat (rev (take n lv))) s"
proof (induction n arbitrary: s)
  case 0
  then show ?case by (simp add: Start_from.simps)
next
  case (Suc n)
  then have n: "n < length lv" by simp
  have e: "int (Suc n) - 1 = int n" by simp
  have "Start_from ctx h log lv (int n) s =
      (case Start_level ctx h log (lv ! n) s of
         (Some err, s') \<Rightarrow> (Some err, s')
       | (None, s') \<Rightarrow> Start_from ctx h log lv (int n - 1) s')"
    by (subst Start_from.simps) simp
  also have "\<dots> = (case Start_level ctx h log (lv ! n) s of
         (Some err, s') \<Rightarrow> (Some err, s')
       | (None, s') \<Rightarrow> Start_level ctx h log (concat (rev (take n lv))) s')"
    using Suc.IH n by (simp split: prod.splits option.splits)
  also have "\<dots> = Start_level ctx h log (lv ! n @ concat (rev (take n lv))) s"
    by (simp add: Start_level_append)
  finally show ?case unfolding e using n by (simp add: take_Suc_conv_app_nth)
qed

lemma Start_levels:
  "levels h objects = Inr lv \<Longrightarrow>
     Start ctx h objects log s = Start_level ctx h log (concat (rev lv)) s"
  by (simp add: Start_def Start_from_take)

lemma Start_level_None:
  "Start_level ctx h log obs s = (None, s') \<Longrightarrow>
     calls s' = calls s @ map StartCall (filter (\<lambda>ob. Starter (h ob) \<noteq> None) obs)"
  by (induction obs arbitrary: s)
    (auto simp: invoke_eq split: option.splits prod.splits)


lemma Stop_levels_concat:
  "Stop_levels ctx h log lv s = Stop_level ctx h log (concat lv) s"
proof (induction lv arbitrary: s)
  case Nil
  then show ?case by simp
next
  case (Cons level lv)
  have "Stop_level ctx h log (xs @ ys) t = Stop_level ctx h log ys (Stop_level ctx h log xs t)"
    for xs ys t
    by (induction xs arbitrary: t) (auto split: option.splits prod.splits)
  with Cons show ?case by simp
qed

lemma Stop_level_calls:
  "calls (Stop_level ctx h log obs s) =
     calls s @ map StopCall (filter (\<lambda>ob. Stopper (h ob) \<noteq> None) obs)"
  by (induction obs arbitrary: s)
    (auto simp: invoke_eq split: option.splits prod.splits)

lemma Stop_level_outcomes:
  "calls (Stop_level ctx h log obs s) = calls s @ map (StopCall \<circ> fst) (stop_outcomes ctx h obs (world s))"
  by (induction obs arbitrary: s)
    (auto simp: invoke_eq split: option.splits prod.splits)

lemma Stop_level_recorder:
  "sink (Stop_level ctx h (Some recorder) obs s) =
     sink s @ concat (map stop_events (stop_outcomes ctx h obs (world s)))"
  by (induction obs arbitrary: s)
    (auto simp: invoke_eq debug_def errorf_def recorder_def stop_events_def
          split: option.splits prod.splits)

lemma Stop_level_nil_sink:
  "sink (Stop_level ctx h None obs s) = sink s"
  by (induction obs arbitrary: s)
    (auto simp: invoke_eq debug_def errorf_def split: option.splits prod.splits)

lemma Start_level_logger:
  "world s = world t \<Longrightarrow> calls s = calls t \<Longrightarrow>
     fst (Start_level ctx h log obs s) = fst (Start_level ctx h log' obs t) \<and>
     world (snd (Start_level ctx h log obs s)) = world (snd (Start_level ctx h log' obs t)) \<and>
     calls (snd (Start_level ctx h log obs s)) = calls (snd (Start_level ctx h log' obs t))"
  by (induction obs arbitrary: s t)
    (auto simp: invoke_eq split: option.splits prod.splits)

lemma Stop_level_logger:
  "world s = world t \<Longrightarrow> calls s = calls t \<Longrightarrow>
     world (Stop_level ctx h log obs s) = world (Stop_level ctx h log' obs t) \<and>
     calls (Stop_level ctx h log obs s) = calls (Stop_level ctx h log' obs t)"
  by (induction obs arbitrary: s t)
    (auto simp: invoke_eq split: option.splits prod.splits)

lemma count_list_filter:
  "count_list (filter P xs) x = (if P x then count_list xs x else 0)"
  by (induction xs) auto

lemma count_list_map_inj:
  "inj f \<Longrightarrow> count_list (map f xs) (f x) = count_list xs x"
  by (induction xs) (auto simp: inj_eq)

lemma count_list_levels:
  assumes "levels h objects = Inr lv"
  shows "count_list (concat lv) ob = (if isEligible (h ob) then count_list objects ob else 0)"
proof -
  have "count_list (concat lv) ob = count (mset (concat lv)) ob"
    by (simp only: count_mset)
  also have "\<dots> = count (mset (filter (\<lambda>ob. isEligible (h ob)) objects)) ob"
    by (simp only: mset_levels[OF assms])
  also have "\<dots> = count_list (filter (\<lambda>ob. isEligible (h ob)) objects) ob"
    by (simp only: count_mset)
  also have "\<dots> = (if isEligible (h ob) then count_list objects ob else 0)"
    by (rule count_list_filter)
  finally show ?thesis .
qed

lemma Stopper_eligible: "Stopper ob \<noteq> None \<Longrightarrow> isEligible ob"
  by (auto simp: isEligible_def split: option.splits)

lemma Starter_eligible: "Starter ob \<noteq> None \<Longrightarrow> isEligible ob"
  by (auto simp: isEligible_def split: option.splits)

lemma count_list_StartCall:
  "count_list (map StartCall xs) (StartCall x) = count_list xs x"
  by (induction xs) auto

lemma count_list_StopCall:
  "count_list (map StopCall xs) (StopCall x) = count_list xs x"
  by (induction xs) auto

lemma count_list_concat_rev:
  "count_list (concat (rev xss)) x = count_list (concat xss) x"
  by (induction xss) auto

section \<open>Cycles, counts and the order of the buckets\<close>

lemma edgesI: "(f, b) \<in> set (Fields (h a)) \<Longrightarrow> (a, b) \<in> edges h"
  by (force simp: edges_def)

lemma is_path_trancl: "is_path h p to \<Longrightarrow> (snd (hd p), to) \<in> (edges h)\<^sup>+"
proof (induction p)
  case Nil
  then show ?case by simp
next
  case (Cons s q)
  show ?case
  proof (cases q)
    case Nil
    with Cons.prems have "(snd s, to) \<in> edges h"
      by (auto simp: next_node_def intro: edgesI)
    then show ?thesis by simp
  next
    case (Cons s' q')
    with Cons.prems have "(fst s, snd s') \<in> set (Fields (h (snd s)))" "is_path h q to"
      by (simp_all add: next_node_def)
    then have "(snd s, snd s') \<in> edges h" "is_path h q to"
      by (auto intro: edgesI)
    with Cons.IH Cons show ?thesis by (simp add: trancl_into_trancl2)
  qed
qed


lemma acyclic_no_paths:
  assumes "acyclic (edges h)"
  shows "fst (allPaths h ob ob {}) = []"
proof (rule ccontr)
  assume "fst (allPaths h ob ob {}) \<noteq> []"
  then obtain p where "p \<in> set (fst (allPaths h ob ob {}))"
    by (cases "fst (allPaths h ob ob {})") auto
  from paths_top[OF this] obtain f q where "p = (f, ob) # q" "is_path h p ob" by blast
  with is_path_trancl[of h p ob] have "(ob, ob) \<in> (edges h)\<^sup>+" by simp
  with assms show False by (simp add: acyclic_def)
qed

lemma acyclic_levels:
  assumes "acyclic (edges h)"
  shows "\<exists>lv. levels h objects = Inr lv"
proof -
  have "\<forall>ob \<in> set objects. isEligible (h ob) \<longrightarrow> fatal h ob = None"
    by (simp add: fatal_def acyclic_no_paths[OF assms])
  from levels_range_total[OF this, of "[]"] show ?thesis
    by (auto simp: levels_def)
qed

lemma level_count_less:
  assumes "(a, b) \<in> (edges h)\<^sup>+" "(b, a) \<notin> (edges h)\<^sup>+" "isEligible (h b)" "a \<noteq> b"
  shows "level_count h b < level_count h a"
proof -
  have "{d \<in> reachability h b. isEligible (h d)} \<subset> {d \<in> reachability h a. isEligible (h d)}"
  proof
    show "{d \<in> reachability h b. isEligible (h d)} \<subseteq> {d \<in> reachability h a. isEligible (h d)}"
      using assms(1,2) by (auto simp: reachability_def)
    have "b \<in> {d \<in> reachability h a. isEligible (h d)}"
      using assms by (auto simp: reachability_def)
    moreover have "b \<notin> {d \<in> reachability h b. isEligible (h d)}"
      by (simp add: reachability_def)
    ultimately show "{d \<in> reachability h b. isEligible (h d)} \<noteq> {d \<in> reachability h a. isEligible (h d)}"
      by blast
  qed
  then show ?thesis
    unfolding level_count_reachability by (intro psubset_card_mono) auto
qed

lemma before_append1: "a \<in> set xs \<Longrightarrow> b \<in> set ys \<Longrightarrow> before a b (xs @ ys)"
  by (induction xs) auto

lemma before_append2: "a \<notin> set xs \<Longrightarrow> before a b (xs @ ys) = before a b ys"
  by (induction xs) auto

lemma before_in_buckets:
  assumes "sorted_wrt R ks" "\<And>x y. R x y \<Longrightarrow> \<not> R y x"
    and "ka \<in> set ks" "kb \<in> set ks" "R ka kb"
    and "a \<in> set (G ka)" "b \<in> set (G kb)" "\<And>k. a \<in> set (G k) \<Longrightarrow> k = ka"
  shows "before a b (concat (map G ks))"
  using assms(1,3,4)
proof (induction ks)
  case Nil
  then show ?case by simp
next
  case (Cons k ks)
  have ne: "ka \<noteq> kb" using assms(2,5) by blast
  show ?case
  proof (cases "k = ka")
    case True
    with Cons.prems ne have "kb \<in> set ks" by auto
    with assms(7) have "b \<in> set (concat (map G ks))" by auto
    with True assms(6) show ?thesis by (simp add: before_append1)
  next
    case False
    with Cons.prems have ka: "ka \<in> set ks" by simp
    with Cons.prems(1) have "R k ka" by simp
    with assms(2,5) have "k \<noteq> kb" by blast
    with Cons.prems have kb: "kb \<in> set ks" by simp
    from False assms(8) have "a \<notin> set (G k)" by blast
    with Cons.IH[OF _ ka kb] Cons.prems(1) show ?thesis
      by (simp add: before_append2)
  qed
qed

lemma before_levels:
  assumes "levels h objects = Inr lv"
    and "a \<in> set objects" "b \<in> set objects" "P a" "P b" "isEligible (h a)" "isEligible (h b)"
    and "level_count h b < level_count h a"
  shows "before b a (filter P (concat (rev lv)))" "before a b (filter P (concat lv))"
proof -
  let ?ks = "level_keys h objects"
  let ?G = "\<lambda>k. filter P (bucket h objects k)"
  have lv: "lv = map (bucket h objects) ?ks" by (rule levels_Inr(1)[OF assms(1)])
  have ka: "level_count h a \<in> set ?ks" and kb: "level_count h b \<in> set ?ks"
    using assms by (auto simp: level_keys_props(3))
  have ga: "a \<in> set (?G (level_count h a))" and gb: "b \<in> set (?G (level_count h b))"
    using assms by (auto simp: bucket_def)
  have ua: "\<And>k. a \<in> set (?G k) \<Longrightarrow> k = level_count h a"
    and ub: "\<And>k. b \<in> set (?G k) \<Longrightarrow> k = level_count h b"
    by (auto simp: bucket_def)
  have e1: "filter P (concat (rev lv)) = concat (map ?G (rev ?ks))"
    by (simp add: lv filter_concat rev_map comp_def)
  have e2: "filter P (concat lv) = concat (map ?G ?ks)"
    by (simp add: lv filter_concat comp_def)
  have "sorted_wrt (<) (rev ?ks)"
    using level_keys_props(1)[of h objects] by (simp add: sorted_wrt_rev)
  from before_in_buckets[of "(<)" "rev ?ks" "level_count h b" "level_count h a" b ?G a, OF this]
    ka kb ga gb ub assms(8)
  show "before b a (filter P (concat (rev lv)))"
    unfolding e1 by auto
  from before_in_buckets[of "(>)" ?ks "level_count h a" "level_count h b" a ?G b,
      OF level_keys_props(1)] ka kb ga gb ua assms(8)
  show "before a b (filter P (concat lv))"
    unfolding e2 by auto
qed

section \<open>When levels returns a cycle error\<close>









section \<open>The levels of the example graphs\<close>

lemma startStopDeps_empty: "startStopDeps h {} = 0"
  by (simp add: startStopDeps_def)

lemma startStopDeps_insert:
  "startStopDeps h (insert a (S :: 'n::finite set)) =
     (if isEligible (h a) \<and> a \<notin> S then Suc (startStopDeps h S) else startStopDeps h S)"
proof -
  have "{x \<in> insert a S. isEligible (h x)} =
      (if isEligible (h a) then insert a {x \<in> S. isEligible (h x)} else {x \<in> S. isEligible (h x)})"
    by auto
  then show ?thesis by (auto simp: startStopDeps_def insert_absorb)
qed

lemmas example_simps =
  allPaths.simps service_def plain_def broken_def isEligible_def count_eligible_def
  startStopDeps_empty startStopDeps_insert append_level_def lookup_level_def levels_def

lemma levels_diamond: "levels diamond [A, B, C, D] = Inr [[A], [B], [C]]"
  by (simp add: diamond_def example_simps)

lemma levels_chain: "levels chain [A, B, C, D] = Inr [[A], [B], [C]]"
  by (simp add: chain_def example_simps)



lemma levels_triangle: "levels triangle [A, B, C, D] = Inr [[A]]"
  by (simp add: triangle_def example_simps)


lemma levels_twice: "levels diamond [C, B, C] = Inr [[B], [C, C]]"
  by (simp add: diamond_def example_simps)

lemmas run_simps =
  Start_def Stop_def Start_from.simps invoke_def debug_def errorf_def ok_def failing_def
  service_def plain_def broken_def s0_def recorder_def

lemma Start_chain:
  "Start () chain [A, B, C, D] None s0 =
     (Some (NodeError ''no start''), s0\<lparr>world := 2, calls := [StartCall C, StartCall B]\<rparr>)"
  by (simp add: levels_chain chain_def run_simps)

lemma Stop_chain:
  "Stop () chain [A, B, C, D] (Some recorder) s0 =
     (None, \<lparr>world = 3,
             sink = [DebugEvent ''stopping %s'' [ObjectArg A],
                     DebugEvent ''stopping %s'' [ObjectArg B],
                     ErrorEvent ''error stopping %s: %s'' [ObjectArg B, ErrorArg ''no stop''],
                     DebugEvent ''stopping %s'' [ObjectArg C]],
             calls = [StopCall A, StopCall B, StopCall C]\<rparr>)"
  by (simp add: levels_chain chain_def run_simps)

lemma s0_simps: "world s0 = 0" "sink s0 = []" "calls s0 = []"
  by (simp_all add: s0_def)

lemma Start_twice:
  "Start () diamond [C, B, C] None s0 =
     (None, s0\<lparr>world := 3, calls := [StartCall C, StartCall C, StartCall B]\<rparr>)"
  by (simp add: levels_twice diamond_def run_simps)

lemma Stop_twice:
  "Stop () diamond [C, B, C] None s0 =
     (None, s0\<lparr>world := 3, calls := [StopCall B, StopCall C, StopCall C]\<rparr>)"
  by (simp add: levels_twice diamond_def run_simps)

lemma acyclic_rank:
  assumes "\<And>a b. (a, b) \<in> edges h \<Longrightarrow> rank b < (rank a :: nat)"
  shows "acyclic (edges h)"
proof -
  have "rank b < rank a" if "(a, b) \<in> (edges h)\<^sup>+" for a b
    using that by (induction rule: trancl_induct) (auto dest: assms)
  then show ?thesis by (fastforce simp: acyclic_def)
qed

lemma acyclic_diamond: "acyclic (edges diamond)"
proof (rule acyclic_rank)
  fix a b
  assume "(a, b) \<in> edges diamond"
  then show "(case b of A \<Rightarrow> 2 | B \<Rightarrow> 1 | C \<Rightarrow> 0 | D \<Rightarrow> 1) <
             (case a of A \<Rightarrow> 2 | B \<Rightarrow> 1 | C \<Rightarrow> 0 | D \<Rightarrow> (1::nat))"
    by (cases a) (auto simp: edges_def diamond_def service_def plain_def)
qed

lemma acyclic_chain: "acyclic (edges chain)"
proof (rule acyclic_rank)
  fix a b
  assume "(a, b) \<in> edges chain"
  then show "(case b of A \<Rightarrow> 2 | B \<Rightarrow> 1 | C \<Rightarrow> 0 | D \<Rightarrow> 0) <
             (case a of A \<Rightarrow> 2 | B \<Rightarrow> 1 | C \<Rightarrow> 0 | D \<Rightarrow> (0::nat))"
    by (cases a) (auto simp: edges_def chain_def service_def plain_def broken_def)
qed

lemma Start_diamond:
  "Start () diamond [A, B, C, D] None s0 =
     (None, s0\<lparr>world := 3, calls := [StartCall C, StartCall B, StartCall A]\<rparr>)"
  by (simp add: levels_diamond diamond_def run_simps)

lemma Stop_diamond:
  "Stop () diamond [A, B, C, D] None
       (s0\<lparr>world := 3, calls := [StartCall C, StartCall B, StartCall A]\<rparr>) =
     (None, s0\<lparr>world := 6,
               calls := [StartCall C, StartCall B, StartCall A,
                         StopCall A, StopCall B, StopCall C]\<rparr>)"
  by (simp add: levels_diamond diamond_def run_simps)



lemma Start_Stop_triangle:
  "Start () triangle [A, B, C, D] None s0 = (None, s0\<lparr>world := 1, calls := [StartCall A]\<rparr>)"
  "Stop () triangle [A, B, C, D] None s0 = (None, s0\<lparr>world := 1, calls := [StopCall A]\<rparr>)"
  by (simp_all add: levels_triangle triangle_def run_simps)



lemma Stop_chain_nil:
  "Stop () chain [A, B, C, D] None s0 =
     (None, s0\<lparr>world := 3, calls := [StopCall A, StopCall B, StopCall C]\<rparr>)"
  by (simp add: levels_chain chain_def run_simps)

lemma levels_chain_twice: "levels chain [A, A, B, C] = Inr [[A, A], [B], [C]]"
  by (simp add: chain_def example_simps)

lemma Start_chain_twice:
  "Start () chain [A, A, B, C] None s0 =
     (Some (NodeError ''no start''), s0\<lparr>world := 2, calls := [StartCall C, StartCall B]\<rparr>)"
  by (simp add: levels_chain_twice chain_def run_simps)

section \<open>Start followed by Stop on an acyclic graph\<close>

text \<open>
  C1, as the code has it. The graph is acyclic and the input lists no object twice.
  When \<^verbatim>\<open>Start\<close> returns no error, and \<^verbatim>\<open>Stop\<close> is run after it, then \<^verbatim>\<open>Stop\<close> returns no
  error, \<^verbatim>\<open>Start\<close> has invoked the \<^verbatim>\<open>Start\<close> of every object of the input that has one
  exactly once, \<^verbatim>\<open>Stop\<close> has invoked the \<^verbatim>\<open>Stop\<close> of every object of the input that has
  one exactly once, and for all objects \<open>a\<close> and \<open>b\<close> of the input where a non-empty chain
  of fields leads from \<open>a\<close> to \<open>b\<close> (through objects of any kind, eligible or not): \<open>b\<close>
  is started before \<open>a\<close> when both have a \<^verbatim>\<open>Start\<close>, and \<open>a\<close> is stopped before \<open>b\<close> when
  both have a \<^verbatim>\<open>Stop\<close>.
\<close>

theorem Start_Stop_order:
  assumes "acyclic (edges h)" "distinct objects"
    and "Start ctx h objects log s = (None, s1)"
    and "Stop ctx' h objects log' s1 = (r, s2)"
  shows
    "r = None \<and>
     (\<exists>starts stops.
        calls s1 = calls s @ map StartCall starts \<and>
        calls s2 = calls s1 @ map StopCall stops \<and>
        distinct starts \<and> set starts = {ob \<in> set objects. Starter (h ob) \<noteq> None} \<and>
        distinct stops \<and> set stops = {ob \<in> set objects. Stopper (h ob) \<noteq> None} \<and>
        (\<forall>a b. a \<in> set objects \<longrightarrow> b \<in> set objects \<longrightarrow> (a, b) \<in> (edges h)\<^sup>+ \<longrightarrow>
           (Starter (h a) \<noteq> None \<longrightarrow> Starter (h b) \<noteq> None \<longrightarrow> before b a starts) \<and>
           (Stopper (h a) \<noteq> None \<longrightarrow> Stopper (h b) \<noteq> None \<longrightarrow> before a b stops)))"
proof -
  from acyclic_levels[OF assms(1)] obtain lv where lv: "levels h objects = Inr lv" by blast
  define starts where "starts = filter (\<lambda>ob. Starter (h ob) \<noteq> None) (concat (rev lv))"
  define stops where "stops = filter (\<lambda>ob. Stopper (h ob) \<noteq> None) (concat lv)"
  from assms(3) have "Start_level ctx h log (concat (rev lv)) s = (None, s1)"
    by (simp add: Start_levels[OF lv])
  from Start_level_None[OF this] have c1: "calls s1 = calls s @ map StartCall starts"
    by (simp add: starts_def)
  from assms(4) have r: "r = None" and c2: "calls s2 = calls s1 @ map StopCall stops"
    by (auto simp: Stop_def lv Stop_levels_concat Stop_level_calls stops_def)
  have m: "mset (concat lv) = mset (filter (\<lambda>ob. isEligible (h ob)) objects)"
    by (rule mset_levels[OF lv])
  have d: "distinct (concat lv)"
    using assms(2) mset_eq_imp_distinct_iff[OF m] by simp
  have st: "set (concat lv) = {ob \<in> set objects. isEligible (h ob)}"
    using mset_eq_setD[OF m] by simp
  have d1: "distinct starts" and d2: "distinct stops"
    using d by (simp_all add: starts_def stops_def)
  have s1: "set starts = {ob \<in> set objects. Starter (h ob) \<noteq> None}"
    using st Starter_eligible by (auto simp: starts_def)
  have s2: "set stops = {ob \<in> set objects. Stopper (h ob) \<noteq> None}"
    using st Stopper_eligible by (auto simp: stops_def)
  have o1: "before b a starts"
    if "a \<in> set objects" "b \<in> set objects" "(a, b) \<in> (edges h)\<^sup>+"
      "Starter (h a) \<noteq> None" "Starter (h b) \<noteq> None" for a b
  proof -
    from that(3) assms(1) have "(b, a) \<notin> (edges h)\<^sup>+" "a \<noteq> b"
      by (auto simp: acyclic_def dest: trancl_trans)
    from level_count_less[OF that(3) this(1) Starter_eligible[OF that(5)] this(2)]
    show ?thesis
      unfolding starts_def
      using that Starter_eligible by (intro before_levels(1)[OF lv]) auto
  qed
  have o2: "before a b stops"
    if "a \<in> set objects" "b \<in> set objects" "(a, b) \<in> (edges h)\<^sup>+"
      "Stopper (h a) \<noteq> None" "Stopper (h b) \<noteq> None" for a b
  proof -
    from that(3) assms(1) have "(b, a) \<notin> (edges h)\<^sup>+" "a \<noteq> b"
      by (auto simp: acyclic_def dest: trancl_trans)
    from level_count_less[OF that(3) this(1) Stopper_eligible[OF that(5)] this(2)]
    show ?thesis
      unfolding stops_def
      using that Stopper_eligible by (intro before_levels(2)[OF lv]) auto
  qed
  show ?thesis
    using r c1 c2 d1 d2 s1 s2 o1 o2 by blast
qed

text \<open>The diamond: started \<open>C\<close>, \<open>B\<close>, \<open>A\<close> and stopped \<open>A\<close>, \<open>B\<close>, \<open>C\<close>.\<close>

theorem Start_Stop_order_witness:
  "acyclic (edges diamond) \<and> distinct [A, B, C, D] \<and>
   Start () diamond [A, B, C, D] None s0 =
     (None, s0\<lparr>world := 3, calls := [StartCall C, StartCall B, StartCall A]\<rparr>) \<and>
   Stop () diamond [A, B, C, D] None
       (s0\<lparr>world := 3, calls := [StartCall C, StartCall B, StartCall A]\<rparr>) =
     (None, s0\<lparr>world := 6,
               calls := [StartCall C, StartCall B, StartCall A,
                         StopCall A, StopCall B, StopCall C]\<rparr>) \<and>
   (\<exists>starts stops.
      calls (s0\<lparr>world := 3, calls := [StartCall C, StartCall B, StartCall A]\<rparr>) =
        calls s0 @ map StartCall starts \<and>
      calls (s0\<lparr>world := 6,
               calls := [StartCall C, StartCall B, StartCall A,
                         StopCall A, StopCall B, StopCall C]\<rparr>) =
        calls (s0\<lparr>world := 3, calls := [StartCall C, StartCall B, StartCall A]\<rparr>)
          @ map StopCall stops \<and>
      distinct starts \<and> set starts = {ob \<in> set [A, B, C, D]. Starter (diamond ob) \<noteq> None} \<and>
      distinct stops \<and> set stops = {ob \<in> set [A, B, C, D]. Stopper (diamond ob) \<noteq> None} \<and>
      (\<forall>a b. a \<in> set [A, B, C, D] \<longrightarrow> b \<in> set [A, B, C, D] \<longrightarrow> (a, b) \<in> (edges diamond)\<^sup>+ \<longrightarrow>
         (Starter (diamond a) \<noteq> None \<longrightarrow> Starter (diamond b) \<noteq> None \<longrightarrow> before b a starts) \<and>
         (Stopper (diamond a) \<noteq> None \<longrightarrow> Stopper (diamond b) \<noteq> None \<longrightarrow> before a b stops)))"
proof -
  have d: "distinct [A, B, C, D]" by simp
  from Start_Stop_order[OF acyclic_diamond d Start_diamond Stop_diamond]
  show ?thesis
    using acyclic_diamond d Start_diamond Stop_diamond by blast
qed

text \<open>
  C1 as stated fails in two ways. In the acyclic chain the \<^verbatim>\<open>Start\<close> of \<open>B\<close> fails, \<^verbatim>\<open>Start\<close>
  returns that error and the \<^verbatim>\<open>Start\<close> of \<open>A\<close> is never invoked. In the acyclic diamond
  with an input that lists \<open>C\<close> twice, the \<^verbatim>\<open>Start\<close> of \<open>C\<close> is invoked twice.
\<close>

theorem Start_Stop_order_counterexample:
  "acyclic (edges chain) \<and> distinct [A, B, C, D] \<and> Starter (chain A) \<noteq> None \<and>
   fst (Start () chain [A, B, C, D] None s0) = Some (NodeError ''no start'') \<and>
   count_list (calls (snd (Start () chain [A, B, C, D] None s0))) (StartCall A) = 0 \<and>
   acyclic (edges diamond) \<and> Starter (diamond C) \<noteq> None \<and>
   count_list (calls (snd (Start () diamond [C, B, C] None s0))) (StartCall C) = 2"
  by (simp add: acyclic_chain acyclic_diamond Start_chain Start_twice s0_simps)
    (simp add: chain_def diamond_def service_def)

section \<open>A field that holds its own object\<close>




section \<open>Cycles with one eligible object\<close>




section \<open>Cycles with two or more eligible objects\<close>




section \<open>The level builder\<close>

text \<open>
  C5. When \<^verbatim>\<open>levels\<close> returns no error, its result is the list of buckets of a list \<open>ks\<close>
  of counts in strictly descending order: the counts are those of the eligible objects
  of the input, the count of an object is the number of eligible objects in its
  reachability set, and the bucket of a count holds the eligible objects of the input
  with that count. On the empty input \<^verbatim>\<open>levels\<close> returns the empty list of buckets. The
  set \<^verbatim>\<open>allPaths\<close> marks for an object is its reachability set: every object other than
  itself that its fields lead to, none left out.
\<close>

theorem levels_buckets:
  "levels h [] = Inr [] \<and>
   (levels h objects = Inr lv \<longrightarrow>
      (\<exists>ks. sorted_wrt (>) ks \<and>
            set ks = (\<lambda>ob. card {d \<in> reachability h ob. isEligible (h d)})
                       ` {ob \<in> set objects. isEligible (h ob)} \<and>
            lv = map (\<lambda>k. filter (\<lambda>ob. isEligible (h ob) \<and>
                              card {d \<in> reachability h ob. isEligible (h d)} = k) objects) ks)) \<and>
   snd (allPaths h ob ob {}) = reachability h ob"
proof (intro conjI impI)
  show "levels h [] = Inr []"
    by (simp add: levels_def)
next
  assume lv: "levels h objects = Inr lv"
  have c: "level_count h = (\<lambda>ob. card {d \<in> reachability h ob. isEligible (h d)})"
    by (rule ext) (rule level_count_reachability)
  have "sorted_wrt (>) (level_keys h objects)"
    and "set (level_keys h objects) = level_count h ` {ob \<in> set objects. isEligible (h ob)}"
    and "lv = map (\<lambda>k. filter (\<lambda>ob. isEligible (h ob) \<and> level_count h ob = k) objects)
               (level_keys h objects)"
    using level_keys_props[of h objects] levels_Inr(1)[OF lv]
    by (simp_all add: bucket_def[abs_def])
  then show "\<exists>ks. sorted_wrt (>) ks \<and>
            set ks = (\<lambda>ob. card {d \<in> reachability h ob. isEligible (h d)})
                       ` {ob \<in> set objects. isEligible (h ob)} \<and>
            lv = map (\<lambda>k. filter (\<lambda>ob. isEligible (h ob) \<and>
                              card {d \<in> reachability h ob. isEligible (h d)} = k) objects) ks"
    unfolding c by blast
next
  show "snd (allPaths h ob ob {}) = reachability h ob"
    by (simp add: deps_reachable reachability_def)
qed

theorem levels_buckets_witness:
  "levels diamond [A, B, C, D] = Inr [[A], [B], [C]] \<and>
   (\<exists>ks. sorted_wrt (>) ks \<and>
         set ks = (\<lambda>ob. card {d \<in> reachability diamond ob. isEligible (diamond d)})
                    ` {ob \<in> set [A, B, C, D]. isEligible (diamond ob)} \<and>
         [[A], [B], [C]] =
           map (\<lambda>k. filter (\<lambda>ob. isEligible (diamond ob) \<and>
                        card {d \<in> reachability diamond ob. isEligible (diamond d)} = k)
                  [A, B, C, D]) ks) \<and>
   snd (allPaths diamond A A {}) = reachability diamond A"
  using levels_buckets[of diamond "[A, B, C, D]" "[[A], [B], [C]]" A] levels_diamond
  by blast

section \<open>Start\<close>



section \<open>Stop\<close>

text \<open>
  C7, as the code has it. When \<^verbatim>\<open>levels\<close> returns the buckets \<open>lv\<close>, \<^verbatim>\<open>Stop\<close> returns no
  error, whatever the \<^verbatim>\<open>Stop\<close> of the objects return. It invokes the \<^verbatim>\<open>Stop\<close> of the
  objects that have one in the order of the buckets, from the first to the last; every
  such object is stopped as many times as the input lists it, and none twice when the
  input lists none twice. A log sink that records its events receives, for every
  object stopped, the debug event and, when its \<^verbatim>\<open>Stop\<close> returned an error, the error
  event with the object and that error. With \<^verbatim>\<open>nil\<close> for the log sink nothing is logged.
\<close>

theorem Stop_continues:
  assumes "levels h objects = Inr lv"
  shows
    "fst (Stop ctx h objects log s) = None \<and>
     calls (snd (Stop ctx h objects log s)) =
       calls s @ map StopCall (filter (\<lambda>ob. Stopper (h ob) \<noteq> None) (concat lv)) \<and>
     (\<forall>ob. count_list (filter (\<lambda>ob. Stopper (h ob) \<noteq> None) (concat lv)) ob =
        (if Stopper (h ob) \<noteq> None then count_list objects ob else 0)) \<and>
     (distinct objects \<longrightarrow> distinct (filter (\<lambda>ob. Stopper (h ob) \<noteq> None) (concat lv))) \<and>
     filter (\<lambda>ob. Stopper (h ob) \<noteq> None) (concat lv) =
       map fst (stop_outcomes ctx h (concat lv) (world s)) \<and>
     sink (snd (Stop ctx h objects (Some recorder) t)) =
       sink t @ concat (map stop_events (stop_outcomes ctx h (concat lv) (world t))) \<and>
     sink (snd (Stop ctx h objects None s)) = sink s"
proof -
  have a: "Stop ctx h objects lg u = (None, Stop_level ctx h lg (concat lv) u)" for lg u
    by (simp add: Stop_def assms Stop_levels_concat)
  have b: "count_list (filter (\<lambda>ob. Stopper (h ob) \<noteq> None) (concat lv)) ob =
        (if Stopper (h ob) \<noteq> None then count_list objects ob else 0)" for ob
    using Stopper_eligible[of "h ob"]
    by (auto simp: count_list_filter count_list_levels[OF assms])
  have c: "filter (\<lambda>ob. Stopper (h ob) \<noteq> None) obs = map fst (stop_outcomes ctx h obs w)" for obs w
    by (induction obs arbitrary: w) (auto split: option.splits)
  have d: "distinct (filter (\<lambda>ob. Stopper (h ob) \<noteq> None) (concat lv))" if "distinct objects"
    using that mset_eq_imp_distinct_iff[OF mset_levels[OF assms]] by simp
  show ?thesis
    using b c d by (simp add: a Stop_level_calls Stop_level_recorder Stop_level_nil_sink)
qed

text \<open>In the chain the \<^verbatim>\<open>Stop\<close> of \<open>B\<close> fails; \<open>C\<close> is stopped all the same.\<close>

theorem Stop_continues_witness:
  "levels chain [A, B, C, D] = Inr [[A], [B], [C]] \<and>
   Stop () chain [A, B, C, D] (Some recorder) s0 =
     (None, \<lparr>world = 3,
             sink = [DebugEvent ''stopping %s'' [ObjectArg A],
                     DebugEvent ''stopping %s'' [ObjectArg B],
                     ErrorEvent ''error stopping %s: %s'' [ObjectArg B, ErrorArg ''no stop''],
                     DebugEvent ''stopping %s'' [ObjectArg C]],
             calls = [StopCall A, StopCall B, StopCall C]\<rparr>) \<and>
   fst (Stop () chain [A, B, C, D] (Some recorder) s0) = None \<and>
   calls (snd (Stop () chain [A, B, C, D] (Some recorder) s0)) =
     calls s0 @ map StopCall (filter (\<lambda>ob. Stopper (chain ob) \<noteq> None) (concat [[A], [B], [C]]))"
  using Stop_continues[of chain "[A, B, C, D]" "[[A], [B], [C]]" "()" "Some recorder" s0 s0]
    levels_chain Stop_chain
  by blast

text \<open>
  C7 as stated fails in two ways. The input lists \<open>C\<close> twice, and \<^verbatim>\<open>Stop\<close> invokes the
  \<^verbatim>\<open>Stop\<close> of \<open>C\<close> twice. In the chain the \<^verbatim>\<open>Stop\<close> of \<open>B\<close> fails, and with \<^verbatim>\<open>nil\<close> for the
  log sink no event is emitted: the state of the sink is as it was.
\<close>

theorem Stop_continues_counterexample:
  "isEligible (diamond C) \<and> Stopper (diamond C) \<noteq> None \<and>
   levels diamond [C, B, C] = Inr [[B], [C, C]] \<and>
   fst (Stop () diamond [C, B, C] None s0) = None \<and>
   count_list (calls (snd (Stop () diamond [C, B, C] None s0))) (StopCall C) = 2 \<and>
   Stopper (chain B) = Some (failing ''no stop'') \<and>
   fst (failing ''no stop'' () 1) = Some ''no stop'' \<and>
   Stop () chain [A, B, C, D] None s0 =
     (None, s0\<lparr>world := 3, calls := [StopCall A, StopCall B, StopCall C]\<rparr>) \<and>
   sink (snd (Stop () chain [A, B, C, D] None s0)) = []"
  by (simp add: levels_twice Stop_twice Stop_chain_nil s0_simps)
    (simp add: diamond_def chain_def service_def broken_def failing_def isEligible_def)

section \<open>The text of a cycle error: properties\<close>

lemma join_lines_Cons: "join_lines (l # ls) = l @ concat (map (\<lambda>x. CHR 0x0A # x) ls)"
  by (induction ls arbitrary: l) (auto split: list.splits)

lemma Error_range_lines:
  "num \<noteq> 1 \<Longrightarrow>
     Error_range h num c buf = buf @ concat (map (\<lambda>s. CHR 0x0A # field_in h s) c)"
  by (induction c arbitrary: buf) auto

text \<open>
  C8. A path of one step is rendered as the single line
  \<^verbatim>\<open>circular reference detected from field <edge-name> in <node-display> to itself\<close>.
  A path of two or more steps is rendered as the line
  \<^verbatim>\<open>circular reference detected from\<close>, then one line
  \<^verbatim>\<open>field <edge-name> in <node-display>\<close> per step, then the line of the first step
  once more; the lines are separated by line feeds and nothing follows the last.
\<close>

theorem cycleError_Error_text:
  "Error h [(f, n)] =
     Some (''circular reference detected from field '' @ f @ '' in '' @ String (h n)
             @ '' to itself'')
   \<and> Error h (c0 # c1 # c) =
     Some (join_lines (''circular reference detected from''
             # map (\<lambda>(f, n). ''field '' @ f @ '' in '' @ String (h n)) (c0 # c1 # c @ [c0])))"
proof
  show "Error h [(f, n)] =
     Some (''circular reference detected from field '' @ f @ '' in '' @ String (h n)
             @ '' to itself'')"
    by (simp add: Error_def field_in_def)
  have fi: "field_in h = (\<lambda>(f, n). ''field '' @ f @ '' in '' @ String (h n))"
    by (auto simp: field_in_def fun_eq_iff)
  have er: "Error_range h (length (c0 # c1 # c)) (c0 # c1 # c) buf =
      buf @ concat (map (\<lambda>s. CHR 0x0A # field_in h s) (c0 # c1 # c))" for buf
    by (rule Error_range_lines) simp
  show "Error h (c0 # c1 # c) =
     Some (join_lines (''circular reference detected from''
             # map (\<lambda>(f, n). ''field '' @ f @ '' in '' @ String (h n)) (c0 # c1 # c @ [c0])))"
    unfolding Error_def Let_def er join_lines_Cons fi[symmetric]
    by (simp add: comp_def)
qed

section \<open>The log sink\<close>

text \<open>
  C9. With a log sink and with \<^verbatim>\<open>nil\<close> for it, \<^verbatim>\<open>Start\<close> returns the same error, invokes
  the same behaviours in the same order and leaves the same world, and so does
  \<^verbatim>\<open>Stop\<close>. The log sink acts on a state of its own, which the behaviours of the
  objects do not read.
\<close>

theorem logger_does_not_steer:
  "fst (Start ctx h objects (Some lg) s) = fst (Start ctx h objects None s) \<and>
   calls (snd (Start ctx h objects (Some lg) s)) = calls (snd (Start ctx h objects None s)) \<and>
   world (snd (Start ctx h objects (Some lg) s)) = world (snd (Start ctx h objects None s)) \<and>
   fst (Stop ctx h objects (Some lg) s) = fst (Stop ctx h objects None s) \<and>
   calls (snd (Stop ctx h objects (Some lg) s)) = calls (snd (Stop ctx h objects None s)) \<and>
   world (snd (Stop ctx h objects (Some lg) s)) = world (snd (Stop ctx h objects None s))"
proof (cases "levels h objects")
  case (Inl p)
  then show ?thesis by (simp add: Start_def Stop_def)
next
  case (Inr lv)
  have a: "Stop ctx h objects l u = (None, Stop_level ctx h l (concat lv) u)" for l u
    by (simp add: Stop_def Inr Stop_levels_concat)
  show ?thesis
    using Start_level_logger[of s s ctx h "Some lg" "concat (rev lv)" None]
      Stop_level_logger[of s s ctx h "Some lg" "concat lv" None]
    by (simp add: Start_levels[OF Inr] a)
qed

section \<open>Objects the input lists more than once\<close>

text \<open>
  C10, as the code has it. When \<^verbatim>\<open>levels\<close> returns the buckets \<open>lv\<close>, an eligible object the input lists \<open>k\<close>
  times is \<open>k\<close> times in one bucket and in no other. \<^verbatim>\<open>Stop\<close> invokes its \<^verbatim>\<open>Stop\<close>, if
  it has one, \<open>k\<close> times, and a \<^verbatim>\<open>Start\<close> that returns no error has invoked its \<^verbatim>\<open>Start\<close>,
  if it has one, \<open>k\<close> times.
\<close>

theorem duplicates_kept:
  assumes "levels h objects = Inr lv" "ob \<in> set objects" "isEligible (h ob)"
  shows
    "(\<exists>i<length lv. count_list (lv ! i) ob = count_list objects ob \<and>
        (\<forall>j<length lv. j \<noteq> i \<longrightarrow> ob \<notin> set (lv ! j))) \<and>
     (Stopper (h ob) \<noteq> None \<longrightarrow>
        count_list (calls (snd (Stop ctx h objects log s))) (StopCall ob) =
          count_list (calls s) (StopCall ob) + count_list objects ob) \<and>
     (Starter (h ob) \<noteq> None \<longrightarrow> fst (Start ctx h objects log s) = None \<longrightarrow>
        count_list (calls (snd (Start ctx h objects log s))) (StartCall ob) =
          count_list (calls s) (StartCall ob) + count_list objects ob)"
proof (intro conjI impI)
  let ?ks = "level_keys h objects"
  have lv: "lv = map (bucket h objects) ?ks" by (rule levels_Inr(1)[OF assms(1)])
  from assms(2,3) have "level_count h ob \<in> set ?ks"
    by (auto simp: level_keys_props(3))
  then obtain i where i: "i < length ?ks" "?ks ! i = level_count h ob"
    by (auto simp: in_set_conv_nth)
  have "count_list (lv ! i) ob = count_list objects ob"
    using i assms(3) by (simp add: lv bucket_def count_list_filter)
  moreover have "ob \<notin> set (lv ! j)" if "j < length lv" "j \<noteq> i" for j
  proof -
    from that i have "?ks ! j \<noteq> level_count h ob"
      using level_keys_props(2)[of h objects] by (metis lv length_map nth_eq_iff_index_eq)
    with that show ?thesis by (auto simp: lv bucket_def)
  qed
  ultimately show "\<exists>i<length lv. count_list (lv ! i) ob = count_list objects ob \<and>
        (\<forall>j<length lv. j \<noteq> i \<longrightarrow> ob \<notin> set (lv ! j))"
    using i(1) by (auto simp: lv)
next
  assume st: "Stopper (h ob) \<noteq> None"
  have "calls (snd (Stop ctx h objects log s)) =
      calls s @ map StopCall (filter (\<lambda>ob. Stopper (h ob) \<noteq> None) (concat lv))"
    by (simp add: Stop_def assms(1) Stop_levels_concat Stop_level_calls)
  then show "count_list (calls (snd (Stop ctx h objects log s))) (StopCall ob) =
          count_list (calls s) (StopCall ob) + count_list objects ob"
    using st assms(3)
    by (simp add: count_list_StopCall count_list_filter count_list_levels[OF assms(1)])
next
  assume st: "Starter (h ob) \<noteq> None" and ok: "fst (Start ctx h objects log s) = None"
  obtain s' where "Start_level ctx h log (concat (rev lv)) s = (None, s')"
    using ok by (cases "Start_level ctx h log (concat (rev lv)) s")
      (simp add: Start_levels[OF assms(1)])
  from Start_level_None[OF this] this have
    "calls (snd (Start ctx h objects log s)) =
       calls s @ map StartCall (filter (\<lambda>ob. Starter (h ob) \<noteq> None) (concat (rev lv)))"
    by (simp add: Start_levels[OF assms(1)])
  moreover have "count_list (concat (rev lv)) ob = count_list (concat lv) ob"
    by (rule count_list_concat_rev)
  ultimately show "count_list (calls (snd (Start ctx h objects log s))) (StartCall ob) =
          count_list (calls s) (StartCall ob) + count_list objects ob"
    using st assms(3)
    by (simp add: count_list_StartCall count_list_filter count_list_levels[OF assms(1)])
qed

text \<open>The input lists \<open>C\<close> twice: it is started twice and stopped twice.\<close>

theorem duplicates_kept_witness:
  "levels diamond [C, B, C] = Inr [[B], [C, C]] \<and> count_list [C, B, C] C = 2 \<and>
   count_list (calls (snd (Stop () diamond [C, B, C] None s0))) (StopCall C) = 2 \<and>
   count_list (calls (snd (Start () diamond [C, B, C] None s0))) (StartCall C) = 2 \<and>
   (\<exists>i<length [[B], [C, C]]. count_list ([[B], [C, C]] ! i) C = count_list [C, B, C] C \<and>
        (\<forall>j<length [[B], [C, C]]. j \<noteq> i \<longrightarrow> C \<notin> set ([[B], [C, C]] ! j)))"
proof -
  have e: "isEligible (diamond C)" "Stopper (diamond C) \<noteq> None" "Starter (diamond C) \<noteq> None"
    by (simp_all add: diamond_def service_def isEligible_def)
  have "C \<in> set [C, B, C]" by simp
  from duplicates_kept[OF levels_twice this e(1), of "()" None s0] e(2,3)
  show ?thesis
    by (simp add: levels_twice Start_twice Stop_twice s0_simps)
qed

text \<open>
  C10 as stated fails: the input lists \<open>A\<close> twice and \<open>A\<close> is twice in its bucket, but the
  \<^verbatim>\<open>Start\<close> of \<open>B\<close> fails before \<^verbatim>\<open>Start\<close> reaches that bucket, and the \<^verbatim>\<open>Start\<close> of \<open>A\<close> is
  not invoked at all.
\<close>

theorem duplicates_kept_counterexample:
  "isEligible (chain A) \<and> Starter (chain A) \<noteq> None \<and> count_list [A, A, B, C] A = 2 \<and>
   levels chain [A, A, B, C] = Inr [[A, A], [B], [C]] \<and>
   fst (Start () chain [A, A, B, C] None s0) = Some (NodeError ''no start'') \<and>
   count_list (calls (snd (Start () chain [A, A, B, C] None s0))) (StartCall A) = 0"
  by (simp add: levels_chain_twice Start_chain_twice)
    (simp add: chain_def service_def isEligible_def)

end
